theory Spec2Isabelle
  imports Main "HOL-Library.Sublist"
begin

section \<open>The chapter formatter of the EDL bot (src/bot.py)\<close>

text \<open>
  The development embeds \<^verbatim>\<open>DVChapterBot._format_chapters\<close> (bot.py, lines 256-274)
  together with the parts of \<^verbatim>\<open>DatabaseManager\<close> it runs through (\<^verbatim>\<open>__exit__\<close>,
  \<^verbatim>\<open>_execute\<close> and \<^verbatim>\<open>get_choices\<close>, lines 95-124) and the two calls of \<^verbatim>\<open>re.search\<close>
  it makes.

  A Python \<^verbatim>\<open>str\<close> is modelled as a \<^typ>\<open>string\<close>: one \<^typ>\<open>char\<close> per code point,
  which covers the code points below 256. Among those the characters matched by
  \<^verbatim>\<open>\d\<close> are exactly \<^verbatim>\<open>0\<close> to \<^verbatim>\<open>9\<close>, and \<^verbatim>\<open>.\<close> matches everything but the line feed.
  A raised exception is the left summand of the result.
\<close>

subsection \<open>Exceptions\<close>

datatype error = IndexError | TypeError | OverflowError

subsection \<open>The preference table and the log (DatabaseManager)\<close>

text \<open>
  Table \<^verbatim>\<open>choices (user_id INTEGER PRIMARY KEY, m_color TEXT DEFAULT 'Blue',
  c_separator TEXT DEFAULT '-')\<close>: at most one row per user.
\<close>

record choices =
  m_color :: string
  c_separator :: string

text \<open>
  What the method can touch besides its arguments: the rows of the table, whether the
  connection \<^verbatim>\<open>self.conn\<close> has been closed, and the records handed to the module's
  \<^verbatim>\<open>logger\<close>, oldest first. Failures of sqlite other than the closed connection (a
  locked or unreadable file) are not part of this state.
\<close>

datatype log_level = INFO | ERROR

record bot_state =
  rows :: "int \<rightharpoonup> choices"
  conn_closed :: bool
  logged :: "(log_level \<times> string) list"


text \<open>The integers sqlite binds to a parameter: 64 bits, signed.\<close>

definition sqlite_integer :: "int \<Rightarrow> bool" where
  "sqlite_integer n \<longleftrightarrow> - (2 ^ 63) \<le> n \<and> n < 2 ^ 63"

text \<open>
  \<^verbatim>\<open>get_choices\<close> (lines 123-124) is \<^verbatim>\<open>_execute\<close> (lines 100-113) on
  \<^verbatim>\<open>SELECT * FROM choices WHERE user_id = ?\<close> with \<^verbatim>\<open>fetchone=True\<close>.
  \<^item> On a closed connection \<^verbatim>\<open>with self.conn\<close> raises \<^verbatim>\<open>sqlite3.ProgrammingError\<close> before
    the parameter is bound; \<^verbatim>\<open>except sqlite3.Error\<close> catches it, logs it with
    \<^verbatim>\<open>logger.error\<close> and returns \<^verbatim>\<open>None\<close>.
  \<^item> Binding a \<^verbatim>\<open>user_id\<close> outside 64 bits raises \<^verbatim>\<open>OverflowError\<close>, which is not an
    \<^verbatim>\<open>sqlite3.Error\<close> and leaves \<^verbatim>\<open>_execute\<close> uncaught.
  \<^item> Otherwise \<^verbatim>\<open>fetchone\<close> gives the row of the user, or \<^verbatim>\<open>None\<close> when there is none.
  The outcome is returned with the state the call leaves behind.
\<close>

definition get_choices :: "bot_state \<Rightarrow> int \<Rightarrow> (error + choices option) \<times> bot_state" where
  "get_choices st user_id =
     (if conn_closed st then
        (Inr None,
         st\<lparr>logged := logged st
              @ [(ERROR, ''Database error: Cannot operate on a closed database.'')]\<rparr>)
      else if sqlite_integer user_id then (Inr (rows st user_id), st)
      else (Inl OverflowError, st))"

subsection \<open>String primitives\<close>

definition newline :: char where
  "newline = CHR 0x0A"

text \<open>The character class \<^verbatim>\<open>\d\<close>.\<close>

definition digit :: "char \<Rightarrow> bool" where
  "digit c \<longleftrightarrow> c \<in> set ''0123456789''"

text \<open>Python's \<^verbatim>\<open>needle in haystack\<close> on strings: the needle occurs at some offset.\<close>

fun str_contains :: "string \<Rightarrow> string \<Rightarrow> bool" where
  "str_contains needle [] = (needle = [])"
| "str_contains needle (c # cs) = (prefix needle (c # cs) \<or> str_contains needle cs)"

text \<open>\<^verbatim>\<open>sep.join(xs)\<close>\<close>

fun join :: "string \<Rightarrow> string list \<Rightarrow> string" where
  "join sep [] = []"
| "join sep [x] = x"
| "join sep (x # y # ys) = x @ sep @ join sep (y # ys)"

subsection \<open>The two regular expressions\<close>

text \<open>
  \<^verbatim>\<open>\d{2}:\d{2}:\d{2}\<close> matched at the start of the string; the result is group 0.
\<close>

fun match_time :: "string \<Rightarrow> string option" where
  "match_time (a # b # c # d # e # f # g # h # rest) =
     (if digit a \<and> digit b \<and> c = CHR '':'' \<and> digit d \<and> digit e \<and> f = CHR '':''
         \<and> digit g \<and> digit h
      then Some [a, b, c, d, e, f, g, h] else None)"
| "match_time _ = None"

text \<open>
  \<^verbatim>\<open>re.search(r"\d{2}:\d{2}:\d{2}", s)\<close>: the match at the leftmost offset that
  has one, \<^verbatim>\<open>None\<close> when no offset has one.
\<close>

fun re_search_time :: "string \<Rightarrow> string option" where
  "re_search_time [] = None"
| "re_search_time (c # cs) =
     (case match_time (c # cs) of
        Some t \<Rightarrow> Some t
      | None \<Rightarrow> re_search_time cs)"

text \<open>
  The tail \<^verbatim>\<open>(.*?) \|D:\<close> of the second pattern, matched at the start of the string.
  The group is lazy: it is extended by one character only when \<^verbatim>\<open> |D:\<close> does not
  follow at once, and it never takes a line feed. The result is group 1.
\<close>

fun match_label :: "string \<Rightarrow> string option" where
  "match_label [] = None"
| "match_label (c # cs) =
     (if prefix '' |D:'' (c # cs) then Some []
      else if c = newline then None
      else map_option ((#) c) (match_label cs))"

text \<open>\<^verbatim>\<open>\|M:(.*?) \|D:\<close> matched at the start of the string.\<close>

definition match_name :: "string \<Rightarrow> string option" where
  "match_name s = (if prefix ''|M:'' s then match_label (drop 3 s) else None)"

text \<open>
  \<^verbatim>\<open>re.search(r"\|M:(.*?) \|D:", s)\<close>: group 1 of the match at the leftmost offset
  that has one.
\<close>

fun re_search_name :: "string \<Rightarrow> string option" where
  "re_search_name [] = None"
| "re_search_name (c # cs) =
     (case match_name (c # cs) of
        Some l \<Rightarrow> Some l
      | None \<Rightarrow> re_search_name cs)"

subsection \<open>The formatter\<close>

definition header :: string where
  "header = ''CAPITOLI'' @ [newline] @ ''--------------------''"

definition color_tag :: "string \<Rightarrow> string" where
  "color_tag color = ''C:ResolveColor'' @ color"

definition chapter_line :: "string \<Rightarrow> string \<Rightarrow> string \<Rightarrow> string" where
  "chapter_line sep t l = t @ '' '' @ sep @ '' '' @ l"

text \<open>
  The loop \<^verbatim>\<open>for i in range(3, n_lines, 3)\<close> (lines 266-272), from index \<open>i\<close> on,
  with the list \<^verbatim>\<open>results\<close> built so far. The first thing an iteration does is read
  \<^verbatim>\<open>lines[i+1]\<close>, which raises \<^verbatim>\<open>IndexError\<close> when \<open>i + 1\<close> is not an index.
\<close>

function chapters_loop ::
  "string \<Rightarrow> string \<Rightarrow> string list \<Rightarrow> nat \<Rightarrow> string list \<Rightarrow> error + string list" where
  "chapters_loop color sep lines i results =
     (if i < length lines then
        (if i + 1 < length lines then
           chapters_loop color sep lines (i + 3)
             (if str_contains (color_tag color) (lines ! (i + 1)) then
                (case (re_search_time (lines ! i), re_search_name (lines ! (i + 1))) of
                   (Some t, Some l) \<Rightarrow> results @ [chapter_line sep t l]
                 | _ \<Rightarrow> results)
              else results)
         else Inl IndexError)
      else Inr results)"
  by pat_completeness auto
termination
  by (relation "measure (\<lambda>(color, sep, lines, i, results). length lines - i)") auto

declare chapters_loop.simps [simp del]

text \<open>
  Lines 260-274 of \<^verbatim>\<open>_format_chapters\<close>, after the two preferences have been read.
\<close>

definition format_chapters_core :: "string \<Rightarrow> string \<Rightarrow> string list \<Rightarrow> error + string" where
  "format_chapters_core color sep lines =
     (if length lines < 6 then Inr []
      else
        (case chapters_loop color sep lines 3 [header] of
           Inl e \<Rightarrow> Inl e
         | Inr results \<Rightarrow> Inr (if length results > 1 then join [newline] results else [])))"

text \<open>
  The whole method. The row of the user is fetched first (lines 257-259): an
  \<^verbatim>\<open>OverflowError\<close> of the query leaves the method as it is, and subscripting the result
  \<^verbatim>\<open>None\<close> of a missing row or of a failed query raises \<^verbatim>\<open>TypeError\<close>. The state is
  returned as the call leaves it.
\<close>

definition format_chapters ::
  "bot_state \<Rightarrow> int \<Rightarrow> string list \<Rightarrow> (error + string) \<times> bot_state" where
  "format_chapters st user_id lines =
     (case get_choices st user_id of
        (Inl e, st') \<Rightarrow> (Inl e, st')
      | (Inr None, st') \<Rightarrow> (Inl TypeError, st')
      | (Inr (Some ch), st') \<Rightarrow>
          (format_chapters_core (m_color ch) (c_separator ch) lines, st'))"

subsection \<open>What a record contributes\<close>

text \<open>
  Two descriptions used to state the results below. \<open>record_entry\<close> is the body of one
  iteration read as a value: the timestamp and the label that the record at index \<open>i\<close>
  yields, or nothing when the colour tag is absent or one of the searches fails.
  \<open>entries_from\<close> collects them along the stride \<open>i, i + 3, \<dots>\<close> for the records whose
  metadata line exists. Neither mentions the separator.
\<close>

definition record_entry :: "string \<Rightarrow> string list \<Rightarrow> nat \<Rightarrow> (string \<times> string) option" where
  "record_entry color lines i =
     (if str_contains (color_tag color) (lines ! (i + 1)) then
        (case (re_search_time (lines ! i), re_search_name (lines ! (i + 1))) of
           (Some t, Some l) \<Rightarrow> Some (t, l)
         | _ \<Rightarrow> None)
      else None)"

function entries_from :: "string \<Rightarrow> string list \<Rightarrow> nat \<Rightarrow> (string \<times> string) list" where
  "entries_from color lines i =
     (if i + 1 < length lines then
        (case record_entry color lines i of Some e \<Rightarrow> [e] | None \<Rightarrow> [])
          @ entries_from color lines (i + 3)
      else [])"
  by pat_completeness auto
termination
  by (relation "measure (\<lambda>(color, lines, i). length lines - i)") auto

declare entries_from.simps [simp del]

section \<open>Properties\<close>

subsection \<open>Substring test\<close>

lemma str_contains_iff: "str_contains p s \<longleftrightarrow> (\<exists>pre suf. s = pre @ p @ suf)"
proof (induction s)
  case Nil
  then show ?case by auto
next
  case (Cons c cs)
  show ?case
  proof
    assume "str_contains p (c # cs)"
    then consider "prefix p (c # cs)" | "str_contains p cs" by auto
    then show "\<exists>pre suf. c # cs = pre @ p @ suf"
    proof cases
      case 1
      then obtain suf where "c # cs = p @ suf" by (auto simp: prefix_def)
      then have "c # cs = [] @ p @ suf" by simp
      then show ?thesis by blast
    next
      case 2
      with Cons obtain pre suf where "cs = pre @ p @ suf" by auto
      then have "c # cs = (c # pre) @ p @ suf" by simp
      then show ?thesis by blast
    qed
  next
    assume "\<exists>pre suf. c # cs = pre @ p @ suf"
    then obtain pre suf where e: "c # cs = pre @ p @ suf" by blast
    show "str_contains p (c # cs)"
    proof (cases pre)
      case Nil
      with e have "prefix p (c # cs)" by (simp add: prefix_def)
      then show ?thesis by simp
    next
      case (Cons a pre')
      with e have "cs = pre' @ p @ suf" by simp
      with Cons.IH have "str_contains p cs" by blast
      then show ?thesis by simp
    qed
  qed
qed

subsection \<open>The loop along the stride\<close>

lemma stride_next_raise:
  "i < (n::nat) \<Longrightarrow> n mod 3 = 1 \<Longrightarrow> i mod 3 = 0 \<Longrightarrow> i + 1 < n \<Longrightarrow> i + 3 < n \<and> (i + 3) mod 3 = 0"
  by presburger

lemma stride_next_ok:
  "n mod 3 \<noteq> 1 \<Longrightarrow> i mod 3 = 0 \<Longrightarrow> i < (n::nat) \<Longrightarrow> i + 1 < n \<and> (i + 3) mod 3 = 0"
  by presburger

lemma chapters_loop_step:
  "i + 1 < length lines \<Longrightarrow>
   chapters_loop color sep lines i results =
     chapters_loop color sep lines (i + 3)
       (results @ map (\<lambda>(t, l). chapter_line sep t l)
          (case record_entry color lines i of Some e \<Rightarrow> [e] | None \<Rightarrow> []))"
  by (subst chapters_loop.simps) (simp add: record_entry_def split: option.splits)

lemma chapters_loop_last:
  "i < length lines \<Longrightarrow> \<not> i + 1 < length lines \<Longrightarrow>
   chapters_loop color sep lines i results = Inl IndexError"
  by (subst chapters_loop.simps) simp

lemma chapters_loop_done:
  "\<not> i < length lines \<Longrightarrow> chapters_loop color sep lines i results = Inr results"
  by (subst chapters_loop.simps) simp

lemma chapters_loop_raises:
  "i < length lines \<Longrightarrow> length lines mod 3 = 1 \<Longrightarrow> i mod 3 = 0 \<Longrightarrow>
   chapters_loop color sep lines i results = Inl IndexError"
proof (induction "length lines - i" arbitrary: i results rule: less_induct)
  case less
  show ?case
  proof (cases "i + 1 < length lines")
    case True
    from stride_next_raise [OF less.prems True]
    have a: "i + 3 < length lines" "(i + 3) mod 3 = 0" by simp_all
    from a(1) have "length lines - (i + 3) < length lines - i" by simp
    from less.hyps [OF this a(1) less.prems(2) a(2)] show ?thesis
      by (simp add: chapters_loop_step [OF True])
  next
    case False
    with less.prems(1) show ?thesis by (rule chapters_loop_last)
  qed
qed

lemma chapters_loop_returns:
  "length lines mod 3 \<noteq> 1 \<Longrightarrow> i mod 3 = 0 \<Longrightarrow>
   chapters_loop color sep lines i results =
     Inr (results @ map (\<lambda>(t, l). chapter_line sep t l) (entries_from color lines i))"
proof (induction "length lines - i" arbitrary: i results rule: less_induct)
  case less
  show ?case
  proof (cases "i < length lines")
    case False
    then have "entries_from color lines i = []"
      by (subst entries_from.simps) simp
    with False show ?thesis by (simp add: chapters_loop_done)
  next
    case True
    from stride_next_ok [OF less.prems True]
    have lt: "i + 1 < length lines" and m: "(i + 3) mod 3 = 0" by simp_all
    from True have "length lines - (i + 3) < length lines - i" by simp
    from less.hyps [OF this less.prems(1) m]
    have "chapters_loop color sep lines i results =
            Inr ((results @ map (\<lambda>(t, l). chapter_line sep t l)
                   (case record_entry color lines i of Some e \<Rightarrow> [e] | None \<Rightarrow> []))
                 @ map (\<lambda>(t, l). chapter_line sep t l) (entries_from color lines (i + 3)))"
      by (simp only: chapters_loop_step [OF lt])
    also have "\<dots> = Inr (results @ map (\<lambda>(t, l). chapter_line sep t l) (entries_from color lines i))"
      using lt by (subst (2) entries_from.simps) simp
    finally show ?thesis .
  qed
qed

lemma join_header:
  "xs \<noteq> [] \<Longrightarrow> join sep (h # xs) = h @ sep @ join sep xs"
  by (cases xs) simp_all

lemma format_chapters_core_eq:
  "format_chapters_core color sep lines =
     (if length lines < 6 then Inr []
      else if length lines mod 3 = 1 then Inl IndexError
      else if entries_from color lines 3 = [] then Inr []
      else Inr (join [newline]
                 (header # map (\<lambda>(t, l). chapter_line sep t l) (entries_from color lines 3))))"
proof (cases "length lines < 6")
  case True
  then show ?thesis by (simp add: format_chapters_core_def)
next
  case False
  then have ge: "3 < length lines" by simp
  show ?thesis
  proof (cases "length lines mod 3 = 1")
    case True
    from chapters_loop_raises [OF ge True, of color sep "[header]"] False True
    show ?thesis by (simp add: format_chapters_core_def)
  next
    case m: False
    from chapters_loop_returns [OF m, of 3 color sep "[header]"] False m
    show ?thesis by (simp add: format_chapters_core_def)
  qed
qed

lemma format_chapters_core_raises:
  "6 \<le> length lines \<Longrightarrow> length lines mod 3 = 1 \<Longrightarrow>
   format_chapters_core color sep lines = Inl IndexError"
  by (simp add: format_chapters_core_eq)

lemma format_chapters_of_row:
  "\<not> conn_closed st \<Longrightarrow> sqlite_integer user_id \<Longrightarrow> rows st user_id = Some ch \<Longrightarrow>
   format_chapters st user_id lines =
     (format_chapters_core (m_color ch) (c_separator ch) lines, st)"
  by (simp add: format_chapters_def get_choices_def)

subsection \<open>What the two searches return\<close>

text \<open>
  A result of either search is a piece of the line at the leftmost offset where the
  pattern matches; the label holds no line feed and ends before the first \<^verbatim>\<open> |D:\<close>
  that follows \<^verbatim>\<open>|M:\<close>.
\<close>

lemma match_time_Some:
  assumes "match_time s = Some t"
  shows "\<exists>a b d e g h rest. t = [a, b, CHR '':'', d, e, CHR '':'', g, h] \<and> s = t @ rest
           \<and> digit a \<and> digit b \<and> digit d \<and> digit e \<and> digit g \<and> digit h"
proof (cases s rule: match_time.cases)
  case (1 a b c d e f g h rest)
  with assms have "digit a \<and> digit b \<and> c = CHR '':'' \<and> digit d \<and> digit e \<and> f = CHR '':''
         \<and> digit g \<and> digit h" and "t = [a, b, c, d, e, f, g, h]"
    by (simp_all split: if_splits)
  with 1 have "t = [a, b, CHR '':'', d, e, CHR '':'', g, h] \<and> s = t @ rest
           \<and> digit a \<and> digit b \<and> digit d \<and> digit e \<and> digit g \<and> digit h" by simp
  then show ?thesis by blast
qed (use assms in simp_all)

lemma re_search_time_Some:
  "re_search_time s = Some t \<Longrightarrow>
   \<exists>pre suf. s = pre @ t @ suf \<and> match_time (t @ suf) = Some t
              \<and> (\<forall>k<length pre. match_time (drop k s) = None)"
proof (induction s)
  case Nil
  then show ?case by simp
next
  case (Cons c cs)
  show ?case
  proof (cases "match_time (c # cs)")
    case (Some u)
    with Cons.prems have u: "u = t" by simp
    from match_time_Some [OF Some] u obtain rest where "c # cs = t @ rest" by blast
    with Some u have "c # cs = [] @ t @ rest \<and> match_time (t @ rest) = Some t
       \<and> (\<forall>k<length ([]::string). match_time (drop k (c # cs)) = None)" by simp
    then show ?thesis by blast
  next
    case None
    with Cons.prems have "re_search_time cs = Some t" by simp
    from Cons.IH [OF this] obtain pre suf where p: "cs = pre @ t @ suf"
      "match_time (t @ suf) = Some t" "\<forall>k<length pre. match_time (drop k cs) = None" by blast
    have "\<forall>k<length (c # pre). match_time (drop k (c # cs)) = None"
    proof (intro allI impI)
      fix k assume "k < length (c # pre)"
      then show "match_time (drop k (c # cs)) = None"
        using None p(3) by (cases k) simp_all
    qed
    with p(1,2) have "c # cs = (c # pre) @ t @ suf \<and> match_time (t @ suf) = Some t
       \<and> (\<forall>k<length (c # pre). match_time (drop k (c # cs)) = None)" by simp
    then show ?thesis by blast
  qed
qed

lemma re_search_time_None:
  "re_search_time s = None \<longleftrightarrow> (\<forall>k. match_time (drop k s) = None)"
proof (induction s)
  case Nil
  then show ?case by simp
next
  case (Cons c cs)
  show ?case
  proof
    assume a: "re_search_time (c # cs) = None"
    then have m: "match_time (c # cs) = None" by (simp split: option.splits)
    with a have "re_search_time cs = None" by simp
    with Cons.IH have r: "\<forall>k. match_time (drop k cs) = None" by simp
    show "\<forall>k. match_time (drop k (c # cs)) = None"
    proof
      fix k show "match_time (drop k (c # cs)) = None"
        using m r by (cases k) simp_all
    qed
  next
    assume a: "\<forall>k. match_time (drop k (c # cs)) = None"
    then have "match_time (drop 0 (c # cs)) = None" by blast
    then have m: "match_time (c # cs) = None" by simp
    have "\<forall>k. match_time (drop k cs) = None"
    proof
      fix k from a have "match_time (drop (Suc k) (c # cs)) = None" by blast
      then show "match_time (drop k cs) = None" by simp
    qed
    with Cons.IH m show "re_search_time (c # cs) = None" by simp
  qed
qed

lemma match_label_Some:
  "match_label s = Some l \<Longrightarrow>
   \<exists>suf. s = l @ '' |D:'' @ suf \<and> newline \<notin> set l
         \<and> (\<forall>k<length l. \<not> prefix '' |D:'' (drop k s))"
proof (induction s arbitrary: l)
  case Nil
  then show ?case by simp
next
  case (Cons c cs)
  show ?case
  proof (cases "prefix '' |D:'' (c # cs)")
    case True
    with Cons.prems have "l = []" by simp
    moreover from True obtain suf where "c # cs = '' |D:'' @ suf"
      unfolding prefix_def by blast
    ultimately have "c # cs = l @ '' |D:'' @ suf \<and> newline \<notin> set l
         \<and> (\<forall>k<length l. \<not> prefix '' |D:'' (drop k (c # cs)))" by simp
    then show ?thesis by blast
  next
    case False
    from Cons.prems
    have "(if c = newline then None else map_option ((#) c) (match_label cs)) = Some l"
      by (simp only: match_label.simps False if_False)
    then have nl: "c \<noteq> newline" and "map_option ((#) c) (match_label cs) = Some l"
      by (simp_all split: if_splits)
    then obtain l' where l': "match_label cs = Some l'" "l = c # l'" by auto
    from Cons.IH [OF l'(1)] obtain suf where s: "cs = l' @ '' |D:'' @ suf"
      "newline \<notin> set l'" "\<forall>k<length l'. \<not> prefix '' |D:'' (drop k cs)" by blast
    have "\<forall>k<length l. \<not> prefix '' |D:'' (drop k (c # cs))"
    proof (intro allI impI)
      fix k assume "k < length l"
      then show "\<not> prefix '' |D:'' (drop k (c # cs))"
        using False s(3) l'(2) by (cases k) simp_all
    qed
    with s(1,2) nl l'(2) have "c # cs = l @ '' |D:'' @ suf \<and> newline \<notin> set l
         \<and> (\<forall>k<length l. \<not> prefix '' |D:'' (drop k (c # cs)))" by simp
    then show ?thesis by blast
  qed
qed

lemma match_name_Some:
  assumes "match_name s = Some l"
  shows "\<exists>suf. s = ''|M:'' @ l @ '' |D:'' @ suf \<and> newline \<notin> set l"
proof -
  from assms have p: "prefix ''|M:'' s" and m: "match_label (drop 3 s) = Some l"
    by (simp_all add: match_name_def split: if_splits)
  from p obtain r where r: "s = ''|M:'' @ r" unfolding prefix_def by blast
  then have "drop 3 s = r" by simp
  with m match_label_Some [of r l] obtain suf where "r = l @ '' |D:'' @ suf" "newline \<notin> set l"
    by blast
  with r have "s = ''|M:'' @ l @ '' |D:'' @ suf \<and> newline \<notin> set l" by simp
  then show ?thesis by blast
qed

lemma re_search_name_Some:
  "re_search_name s = Some l \<Longrightarrow>
   \<exists>pre suf. s = pre @ ''|M:'' @ l @ '' |D:'' @ suf \<and> newline \<notin> set l
              \<and> (\<forall>k<length pre. match_name (drop k s) = None)"
proof (induction s)
  case Nil
  then show ?case by simp
next
  case (Cons c cs)
  show ?case
  proof (cases "match_name (c # cs)")
    case (Some u)
    with Cons.prems have "match_name (c # cs) = Some l" by simp
    from match_name_Some [OF this] obtain suf where
      "c # cs = ''|M:'' @ l @ '' |D:'' @ suf" "newline \<notin> set l" by blast
    then have "c # cs = [] @ ''|M:'' @ l @ '' |D:'' @ suf \<and> newline \<notin> set l
       \<and> (\<forall>k<length ([]::string). match_name (drop k (c # cs)) = None)" by simp
    then show ?thesis by blast
  next
    case None
    with Cons.prems have "re_search_name cs = Some l" by simp
    from Cons.IH [OF this] obtain pre suf where p: "cs = pre @ ''|M:'' @ l @ '' |D:'' @ suf"
      "newline \<notin> set l" "\<forall>k<length pre. match_name (drop k cs) = None" by blast
    have "\<forall>k<length (c # pre). match_name (drop k (c # cs)) = None"
    proof (intro allI impI)
      fix k assume "k < length (c # pre)"
      then show "match_name (drop k (c # cs)) = None"
        using None p(3) by (cases k) simp_all
    qed
    with p(1,2) have "c # cs = (c # pre) @ ''|M:'' @ l @ '' |D:'' @ suf \<and> newline \<notin> set l
       \<and> (\<forall>k<length (c # pre). match_name (drop k (c # cs)) = None)" by simp
    then show ?thesis by blast
  qed
qed

subsection \<open>The entries of a file\<close>

lemma entries_from_set:
  "set (entries_from color lines i) =
     {e. \<exists>k. i + 3 * k + 1 < length lines \<and> record_entry color lines (i + 3 * k) = Some e}"
proof (induction "length lines - i" arbitrary: i rule: less_induct)
  case less
  show ?case
  proof (cases "i + 1 < length lines")
    case False
    then have "entries_from color lines i = []"
      by (subst entries_from.simps) simp
    moreover from False have "\<And>k. \<not> i + 3 * k + 1 < length lines" by simp
    ultimately show ?thesis by simp
  next
    case True
    then have "length lines - (i + 3) < length lines - i" by simp
    from less.hyps [OF this]
    have ih: "set (entries_from color lines (i + 3)) =
      {e. \<exists>k. i + 3 + 3 * k + 1 < length lines \<and> record_entry color lines (i + 3 + 3 * k) = Some e}" .
    have split: "(\<exists>k. i + 3 * k + 1 < length lines \<and> record_entry color lines (i + 3 * k) = Some e)
       \<longleftrightarrow> record_entry color lines i = Some e
           \<or> (\<exists>k. i + 3 + 3 * k + 1 < length lines \<and> record_entry color lines (i + 3 + 3 * k) = Some e)"
      (is "?L \<longleftrightarrow> ?A \<or> ?B") for e
    proof
      assume ?L
      then obtain k where k: "i + 3 * k + 1 < length lines"
        "record_entry color lines (i + 3 * k) = Some e" by blast
      show "?A \<or> ?B"
      proof (cases k)
        case 0
        with k show ?thesis by simp
      next
        case (Suc k')
        then have "i + 3 * k = i + 3 + 3 * k'" by simp
        with k have "i + 3 + 3 * k' + 1 < length lines \<and>
                     record_entry color lines (i + 3 + 3 * k') = Some e" by simp
        then show ?thesis by blast
      qed
    next
      assume "?A \<or> ?B"
      then show ?L
      proof
        assume ?A
        with True have "i + 3 * 0 + 1 < length lines \<and>
                        record_entry color lines (i + 3 * 0) = Some e" by simp
        then show ?L by blast
      next
        assume ?B
        then obtain k where "i + 3 + 3 * k + 1 < length lines"
          "record_entry color lines (i + 3 + 3 * k) = Some e" by blast
        then have "i + 3 * Suc k + 1 < length lines \<and>
                   record_entry color lines (i + 3 * Suc k) = Some e" by (simp add: add.assoc)
        then show ?L by blast
      qed
    qed
    have "set (entries_from color lines i) =
            set (case record_entry color lines i of Some e \<Rightarrow> [e] | None \<Rightarrow> [])
            \<union> set (entries_from color lines (i + 3))"
      using True by (subst entries_from.simps) simp
    also have "\<dots> = {e. record_entry color lines i = Some e}
                     \<union> set (entries_from color lines (i + 3))"
      by (auto split: option.splits)
    finally show ?thesis
      by (simp only: ih split Un_def mem_Collect_eq)
  qed
qed

lemma stride_index: "3 \<le> (i::nat) \<Longrightarrow> i mod 3 = 0 \<Longrightarrow> \<exists>k. i = 3 + 3 * k"
  by presburger

lemma entries_set:
  "set (entries_from color lines 3) =
     {e. \<exists>i. 3 \<le> i \<and> i mod 3 = 0 \<and> i + 1 < length lines \<and> record_entry color lines i = Some e}"
proof -
  have "(\<exists>k. 3 + 3 * k + 1 < length lines \<and> record_entry color lines (3 + 3 * k) = Some e)
        \<longleftrightarrow> (\<exists>i. 3 \<le> i \<and> i mod 3 = 0 \<and> i + 1 < length lines \<and> record_entry color lines i = Some e)"
    (is "?L \<longleftrightarrow> ?R") for e
  proof
    assume ?L
    then obtain k where "3 + 3 * k + 1 < length lines \<and>
      record_entry color lines (3 + 3 * k) = Some e" ..
    then have k: "3 + 3 * k + 1 < length lines" "record_entry color lines (3 + 3 * k) = Some e"
      by simp_all
    from k show ?R by (intro exI [of _ "3 + 3 * k"]) simp
  next
    assume ?R
    then obtain i where "3 \<le> i \<and> i mod 3 = 0 \<and> i + 1 < length lines \<and>
      record_entry color lines i = Some e" ..
    then have i: "3 \<le> i" "i mod 3 = 0" "i + 1 < length lines"
      "record_entry color lines i = Some e" by simp_all
    from stride_index [OF i(1,2)] obtain k where "i = 3 + 3 * k" ..
    with i(3,4) show ?L by (intro exI [of _ k]) simp
  qed
  then show ?thesis by (simp only: entries_from_set)
qed

lemma no_entry_returns_empty:
  assumes "length lines mod 3 \<noteq> 1"
    and "\<forall>i. 3 \<le> i \<and> i mod 3 = 0 \<and> i + 1 < length lines \<longrightarrow> record_entry color lines i = None"
  shows "format_chapters_core color sep lines = Inr []"
proof -
  from assms(2) have "set (entries_from color lines 3) = {}"
    unfolding entries_set by auto
  then have "entries_from color lines 3 = []" by simp
  with assms(1) show ?thesis by (simp add: format_chapters_core_eq)
qed

lemma entries_from_agree:
  assumes "length xs = length ys"
    and "\<forall>j. 3 \<le> j \<and> j < length xs \<and> (j mod 3 = 0 \<or> j mod 3 = 1) \<longrightarrow> xs ! j = ys ! j"
  shows "3 \<le> i \<Longrightarrow> i mod 3 = 0 \<Longrightarrow> entries_from color xs i = entries_from color ys i"
proof (induction "length xs - i" arbitrary: i rule: less_induct)
  case less
  show ?case
  proof (cases "i + 1 < length xs")
    case False
    with assms(1) show ?thesis
      by (subst entries_from.simps, subst (2) entries_from.simps) simp
  next
    case True
    from less.prems have m: "(i + 1) mod 3 = 1" "(i + 3) mod 3 = 0" "3 \<le> i + 3" "3 \<le> i + 1"
      by presburger+
    from True less.prems assms(2) have a: "xs ! i = ys ! i" by simp
    from True m assms(2) have b: "xs ! (i + 1) = ys ! (i + 1)" by blast
    from a b have r: "record_entry color xs i = record_entry color ys i"
      by (simp add: record_entry_def)
    from True have "length xs - (i + 3) < length xs - i" by simp
    from less.hyps [OF this m(3) m(2)]
    have "entries_from color xs (i + 3) = entries_from color ys (i + 3)" .
    with r True assms(1) show ?thesis
      by (subst entries_from.simps, subst (2) entries_from.simps) simp
  qed
qed

lemma below_six: "j < (6::nat) \<Longrightarrow> 3 \<le> j \<Longrightarrow> j = 3 \<or> j = 4 \<or> j = 5"
  by arith

lemma chapters_loop_skip:
  assumes "i + 1 < length lines"
    and "re_search_time (lines ! i) = None \<or> re_search_name (lines ! (i + 1)) = None"
  shows "chapters_loop color sep lines i results = chapters_loop color sep lines (i + 3) results"
proof -
  from assms(2) have "record_entry color lines i = None"
    by (auto simp: record_entry_def split: option.splits)
  with assms(1) show ?thesis by (simp add: chapters_loop_step)
qed

lemma matching_record_contributes:
  assumes "6 \<le> length lines" and "length lines mod 3 \<noteq> 1"
    and "3 \<le> i" and "i mod 3 = 0" and "i + 1 < length lines"
    and "record_entry color lines i = Some (t, l)"
  shows "\<exists>results. format_chapters_core color sep lines = Inr (join [newline] (header # results))
           \<and> chapter_line sep t l \<in> set results"
proof -
  let ?es = "entries_from color lines 3"
  from assms(3-6) have "3 \<le> i \<and> i mod 3 = 0 \<and> i + 1 < length lines
     \<and> record_entry color lines i = Some (t, l)" by simp
  then have "\<exists>j. 3 \<le> j \<and> j mod 3 = 0 \<and> j + 1 < length lines
     \<and> record_entry color lines j = Some (t, l)" by (rule exI)
  then have m: "(t, l) \<in> set ?es" by (simp only: entries_set mem_Collect_eq)
  then have ne: "?es \<noteq> []" by auto
  from m have "(\<lambda>(t, l). chapter_line sep t l) (t, l)
                 \<in> set (map (\<lambda>(t, l). chapter_line sep t l) ?es)"
    by (simp only: set_map) (rule imageI)
  then have "chapter_line sep t l \<in> set (map (\<lambda>(t, l). chapter_line sep t l) ?es)" by simp
  moreover from assms(1,2) ne
  have "format_chapters_core color sep lines =
          Inr (join [newline] (header # map (\<lambda>(t, l). chapter_line sep t l) ?es))"
    by (simp add: format_chapters_core_eq)
  ultimately show ?thesis by blast
qed

lemma malformed_record_skipped_nine_lines:
  "format_chapters_core ''Blue'' ''-''
     [''H1'', ''H2'', ''H3'',
      ''no time here'', ''|C:ResolveColorBlue |M:First |D:1'', [],
      ''00:00:20:00'', ''|C:ResolveColorBlue |M:Second |D:1'', []]
   = Inr (''CAPITOLI'' @ [newline] @ ''--------------------'' @ [newline] @ ''00:00:20 - Second'')"
  by (simp add: format_chapters_core_eq entries_from.simps record_entry_def color_tag_def
        chapter_line_def header_def digit_def match_name_def newline_def)

lemma format_chapters_reads_one_row:
  "conn_closed st1 = conn_closed st2 \<Longrightarrow> rows st1 user_id = rows st2 user_id \<Longrightarrow>
   fst (format_chapters st1 user_id lines) = fst (format_chapters st2 user_id lines)"
  by (simp add: format_chapters_def get_choices_def split: option.splits)

lemma format_chapters_closed:
  "conn_closed st \<Longrightarrow>
   format_chapters st user_id lines =
     (Inl TypeError,
      st\<lparr>logged := logged st
           @ [(ERROR, ''Database error: Cannot operate on a closed database.'')]\<rparr>)"
  by (simp add: format_chapters_def get_choices_def)

lemma format_chapters_overflow:
  "\<not> conn_closed st \<Longrightarrow> \<not> sqlite_integer user_id \<Longrightarrow>
   format_chapters st user_id lines = (Inl OverflowError, st)"
  by (simp add: format_chapters_def get_choices_def)

lemma format_chapters_no_row:
  "\<not> conn_closed st \<Longrightarrow> sqlite_integer user_id \<Longrightarrow> rows st user_id = None \<Longrightarrow>
   format_chapters st user_id lines = (Inl TypeError, st)"
  by (simp add: format_chapters_def get_choices_def)

section \<open>The claims\<close>

text \<open>
  C1. Claimed: for every list of at least six lines the formatter returns a string and
  raises no indexing error, also when the stride reaches an index \<open>i\<close> with
  \<open>i + 1 \<ge> len(lines)\<close>. The code does not guard the read of \<^verbatim>\<open>lines[i+1]\<close>: on the
  seven lines below (a header, one record, one more line) the iteration \<open>i = 6\<close> reads
  index 7 and the call ends in \<^verbatim>\<open>IndexError\<close>. Lemma \<open>format_chapters_core_raises\<close>
  has the same for every length of at least six that is congruent to 1 modulo 3.
\<close>

theorem extra_line_raises:
  "format_chapters_core ''Blue'' ''-''
     [''H1'', ''H2'', ''H3'', ''00:01:23:00'', ''|C:ResolveColorBlue |M:Intro |D:1'', [],
      ''extra'']
   = Inl IndexError"
  by (simp add: format_chapters_core_eq)

text \<open>
  C2. For six lines whose line 4 contains \<^verbatim>\<open>C:ResolveColor\<close> followed by the colour,
  whose line 3 has a first match \<open>t\<close> of the time pattern and whose line 4 has a first
  match of the label pattern with group \<open>l\<close>, the result is exactly the header, a line
  feed, and \<open>t\<close>, the separator and \<open>l\<close> with single blanks between them.
\<close>

theorem single_record_output:
  assumes "length lines = 6"
    and "str_contains (''C:ResolveColor'' @ color) (lines ! 4)"
    and "re_search_time (lines ! 3) = Some t"
    and "re_search_name (lines ! 4) = Some l"
  shows "format_chapters_core color sep lines =
           Inr (''CAPITOLI'' @ [newline] @ ''--------------------'' @ [newline]
                @ t @ '' '' @ sep @ '' '' @ l)"
proof -
  have "chapters_loop color sep lines 3 [header] =
          chapters_loop color sep lines 6 [header, chapter_line sep t l]"
    using assms by (simp add: chapters_loop_step record_entry_def color_tag_def)
  also have "\<dots> = Inr [header, chapter_line sep t l]"
    using assms(1) by (simp add: chapters_loop_done)
  finally show ?thesis
    using assms(1) by (simp add: format_chapters_core_def header_def chapter_line_def)
qed

text \<open>
  The scenario of the specification: colour \<^verbatim>\<open>Blue\<close>, separator \<^verbatim>\<open>-\<close>, and the result
  \<^verbatim>\<open>CAPITOLI\n--------------------\n00:01:23 - Intro\<close>.
\<close>

theorem single_record_output_witness:
  "format_chapters_core ''Blue'' ''-''
     [''H1'', ''H2'', ''H3'', ''00:01:23:00'', ''...|M:Intro |D:...C:ResolveColorBlue...'',
      ''skip'']
   = Inr (''CAPITOLI'' @ [newline] @ ''--------------------'' @ [newline] @ ''00:01:23 - Intro'')"
  using single_record_output [of "[''H1'', ''H2'', ''H3'', ''00:01:23:00'',
      ''...|M:Intro |D:...C:ResolveColorBlue...'', ''skip'']" "''Blue''" "''00:01:23''" "''Intro''" "''-''"]
  by (simp add: digit_def match_name_def newline_def)

text \<open>
  C3. With fewer than six lines the result is the empty string, whatever the lines, the
  colour and the separator are.
\<close>

theorem short_input_empty:
  "length lines < 6 \<Longrightarrow> format_chapters_core color sep lines = Inr []"
  by (simp add: format_chapters_core_def)

text \<open>Five lines that hold a complete, matching record still give the empty string.\<close>

theorem short_input_empty_witness:
  "format_chapters_core ''Blue'' ''-''
     [''H1'', ''H2'', ''H3'', ''00:01:23:00'', ''|C:ResolveColorBlue |M:Intro |D:1''] = Inr []"
  using short_input_empty [of "[''H1'', ''H2'', ''H3'', ''00:01:23:00'',
     ''|C:ResolveColorBlue |M:Intro |D:1'']" "''Blue''" "''-''"]
  by simp

text \<open>
  C4. Claimed: with at least six lines, when no record's metadata line holds the colour
  tag, or every tagged record fails an extraction, the result is the empty string. The
  code gives the empty string when the loop runs to its end (lemma
  \<open>no_entry_returns_empty\<close>), which it does not for a length congruent to 1 modulo 3: on
  the seven lines below, none of them tagged \<^verbatim>\<open>Blue\<close>, the iteration \<open>i = 6\<close> raises
  \<^verbatim>\<open>IndexError\<close>.
\<close>

theorem no_match_trailing_line_raises:
  "format_chapters_core ''Blue'' ''-''
     [''H1'', ''H2'', ''H3'', ''00:00:10:00'', ''|C:ResolveColorRed |M:Intro |D:1'', [],
      ''00:00:20:00'']
   = Inl IndexError"
  by (simp add: format_chapters_core_eq)

text \<open>
  C5. Claimed: a record that carries the colour tag but lacks the timestamp or the label
  adds no chapter line, no error is raised, and every later well-formed tagged record
  still adds its line to the output. The iteration itself does so (lemmas
  \<open>chapters_loop_skip\<close>, \<open>matching_record_contributes\<close> and
  \<open>malformed_record_skipped_nine_lines\<close>), but on the ten lines below, where the record
  at 3 has no timestamp and the record at 6 is well formed, the iteration \<open>i = 9\<close> raises
  \<^verbatim>\<open>IndexError\<close> and nothing is returned.
\<close>

theorem malformed_record_trailing_line_raises:
  "format_chapters_core ''Blue'' ''-''
     [''H1'', ''H2'', ''H3'',
      ''no time here'', ''|C:ResolveColorBlue |M:First |D:1'', [],
      ''00:00:20:00'', ''|C:ResolveColorBlue |M:Second |D:1'', [],
      []]
   = Inl IndexError"
  by (simp add: format_chapters_core_eq)

text \<open>
  C6. A three-line header followed by two records, at 3 and at 6 (eight or nine lines, the
  third line of the last record being optional): when only the metadata line of the second
  holds the colour tag and both its searches succeed with \<open>t\<close> and \<open>l\<close>, the output is the
  header and the single chapter line of \<open>t\<close> and \<open>l\<close>, and the second record is the only
  entry.
\<close>

theorem second_record_only:
  assumes "length lines = 8 \<or> length lines = 9"
    and "\<not> str_contains (''C:ResolveColor'' @ color) (lines ! 4)"
    and "str_contains (''C:ResolveColor'' @ color) (lines ! 7)"
    and "re_search_time (lines ! 6) = Some t"
    and "re_search_name (lines ! 7) = Some l"
  shows "format_chapters_core color sep lines =
           Inr (''CAPITOLI'' @ [newline] @ ''--------------------'' @ [newline]
                @ t @ '' '' @ sep @ '' '' @ l)
         \<and> entries_from color lines 3 = [(t, l)]"
proof -
  from assms(1) have n: "3 + 1 < length lines" "6 + 1 < length lines" "\<not> 9 < length lines"
    "\<not> 9 + 1 < length lines" "\<not> length lines < 6"
    by auto
  have r3: "record_entry color lines 3 = None"
    using assms(2) by (simp add: record_entry_def color_tag_def)
  have r6: "record_entry color lines 6 = Some (t, l)"
    using assms(3-5) by (simp add: record_entry_def color_tag_def)
  have "chapters_loop color sep lines 3 [header] = chapters_loop color sep lines 6 [header]"
    using r3 by (simp add: chapters_loop_step [OF n(1)])
  also have "\<dots> = chapters_loop color sep lines 9 [header, chapter_line sep t l]"
    using r6 by (simp add: chapters_loop_step [OF n(2)])
  also have "\<dots> = Inr [header, chapter_line sep t l]"
    by (rule chapters_loop_done [OF n(3)])
  finally have out: "format_chapters_core color sep lines =
           Inr (''CAPITOLI'' @ [newline] @ ''--------------------'' @ [newline]
                @ t @ '' '' @ sep @ '' '' @ l)"
    using n(5) by (simp add: format_chapters_core_def header_def chapter_line_def)
  have "entries_from color lines 9 = []"
    using n(4) by (subst entries_from.simps) simp
  then have "entries_from color lines 6 = [(t, l)]"
    using r6 n(2) by (subst entries_from.simps) simp
  then have "entries_from color lines 3 = [(t, l)]"
    using r3 n(1) by (subst entries_from.simps) simp
  with out show ?thesis by simp
qed

text \<open>Two records, the first tagged \<^verbatim>\<open>Red\<close>, the second \<^verbatim>\<open>Blue\<close>; the separator is \<^verbatim>\<open>|\<close>.\<close>

theorem second_record_only_witness:
  "format_chapters_core ''Blue'' ''|''
     [''H1'', ''H2'', ''H3'',
      ''00:00:10:00'', ''|C:ResolveColorRed |M:First |D:1'', [],
      ''00:00:20:00'', ''|C:ResolveColorBlue |M:Second |D:1'', []]
   = Inr (''CAPITOLI'' @ [newline] @ ''--------------------'' @ [newline] @ ''00:00:20 | Second'')
   \<and> entries_from ''Blue''
     [''H1'', ''H2'', ''H3'',
      ''00:00:10:00'', ''|C:ResolveColorRed |M:First |D:1'', [],
      ''00:00:20:00'', ''|C:ResolveColorBlue |M:Second |D:1'', []] 3
   = [(''00:00:20'', ''Second'')]"
  using second_record_only [of "[''H1'', ''H2'', ''H3'',
      ''00:00:10:00'', ''|C:ResolveColorRed |M:First |D:1'', [],
      ''00:00:20:00'', ''|C:ResolveColorBlue |M:Second |D:1'', []]" "''Blue''" "''00:00:20''"
      "''Second''" "''|''"]
  by (simp add: digit_def match_name_def newline_def)

text \<open>
  C7. The separator takes no part in matching or extraction. Whether the call returns or
  raises depends on the number of lines alone; the records that become chapters are
  \<open>entries_from color lines 3\<close>, in which the separator does not occur; and each chapter
  line is the timestamp, a blank, the separator as it is, a blank, and the label. This
  holds for every separator, among them \<^verbatim>\<open>|\<close> and \<^verbatim>\<open>.\<close>.
\<close>

theorem separator_only_formats:
  "format_chapters_core color sep lines =
     (if length lines < 6 then Inr []
      else if length lines mod 3 = 1 then Inl IndexError
      else if entries_from color lines 3 = [] then Inr []
      else Inr (join [newline]
                 (header # map (\<lambda>(t, l). t @ '' '' @ sep @ '' '' @ l)
                             (entries_from color lines 3))))"
  by (simp only: format_chapters_core_eq chapter_line_def)

text \<open>
  C8. Two lists of lines of the same length that agree at every index \<open>j \<ge> 3\<close> with
  \<open>j mod 3\<close> equal to 0 or 1 give the same result (the same string, or the same
  exception): the three header lines and the third line of each record are never read.
\<close>

theorem unread_lines_irrelevant:
  assumes "length xs = length ys"
    and "\<forall>j. 3 \<le> j \<and> j < length xs \<and> (j mod 3 = 0 \<or> j mod 3 = 1) \<longrightarrow> xs ! j = ys ! j"
  shows "format_chapters_core color sep xs = format_chapters_core color sep ys"
proof -
  have "entries_from color xs 3 = entries_from color ys 3"
    using entries_from_agree [OF assms, of 3 color] by simp
  with assms(1) show ?thesis by (simp add: format_chapters_core_eq)
qed

text \<open>
  Header lines and the third line of the record differ; the third line of the second list
  even looks like a record.
\<close>

theorem unread_lines_irrelevant_witness:
  "format_chapters_core ''Blue'' ''-''
     [''H1'', ''H2'', ''H3'', ''00:01:23:00'', ''|C:ResolveColorBlue |M:Intro |D:1'', ''x'']
   = format_chapters_core ''Blue'' ''-''
     [''TITLE'', ''FCM'', [], ''00:01:23:00'', ''|C:ResolveColorBlue |M:Intro |D:1'',
      ''01:02:03 |C:ResolveColorBlue |M:Other |D:1'']"
proof -
  let ?xs = "[''H1'', ''H2'', ''H3'', ''00:01:23:00'', ''|C:ResolveColorBlue |M:Intro |D:1'', ''x'']"
  let ?ys = "[''TITLE'', ''FCM'', [], ''00:01:23:00'', ''|C:ResolveColorBlue |M:Intro |D:1'',
      ''01:02:03 |C:ResolveColorBlue |M:Other |D:1'']"
  have l: "length ?xs = length ?ys" by simp
  have "\<forall>j. 3 \<le> j \<and> j < length ?xs \<and> (j mod 3 = 0 \<or> j mod 3 = 1) \<longrightarrow> ?xs ! j = ?ys ! j"
  proof (intro allI impI)
    fix j :: nat
    assume h: "3 \<le> j \<and> j < length ?xs \<and> (j mod 3 = 0 \<or> j mod 3 = 1)"
    then have "j = 3 \<or> j = 4 \<or> j = 5" by (simp add: below_six)
    with h show "?xs ! j = ?ys ! j" by auto
  qed
  from unread_lines_irrelevant [OF l this] show ?thesis .
qed

text \<open>
  C9. The colour test is substring containment: a metadata line that holds
  \<^verbatim>\<open>C:ResolveColor\<close>, the colour \<open>c\<close> and any further characters passes the test for \<open>c\<close>;
  for the empty colour the test is containment of \<^verbatim>\<open>C:ResolveColor\<close> alone; and a record
  tagged \<^verbatim>\<open>BlueDark\<close> becomes a chapter for the colour \<^verbatim>\<open>Blue\<close>.
\<close>

theorem color_test_overmatches:
  "str_contains (color_tag c) (pre @ ''C:ResolveColor'' @ c @ rest @ suf)
   \<and> str_contains (color_tag []) line = str_contains ''C:ResolveColor'' line
   \<and> format_chapters_core ''Blue'' ''-''
        [''H1'', ''H2'', ''H3'', ''00:01:23:00'', ''|C:ResolveColorBlueDark |M:Intro |D:1'', []]
      = Inr (''CAPITOLI'' @ [newline] @ ''--------------------'' @ [newline] @ ''00:01:23 - Intro'')"
proof -
  have "pre @ ''C:ResolveColor'' @ c @ rest @ suf = pre @ color_tag c @ (rest @ suf)"
    by (simp add: color_tag_def)
  then have a: "str_contains (color_tag c) (pre @ ''C:ResolveColor'' @ c @ rest @ suf)"
    unfolding str_contains_iff by blast
  have b: "str_contains (color_tag []) line = str_contains ''C:ResolveColor'' line"
    by (simp add: color_tag_def)
  have c: "format_chapters_core ''Blue'' ''-''
        [''H1'', ''H2'', ''H3'', ''00:01:23:00'', ''|C:ResolveColorBlueDark |M:Intro |D:1'', []]
      = Inr (''CAPITOLI'' @ [newline] @ ''--------------------'' @ [newline] @ ''00:01:23 - Intro'')"
    by (simp add: format_chapters_core_eq entries_from.simps record_entry_def color_tag_def
        chapter_line_def header_def digit_def match_name_def newline_def)
  from a b c show ?thesis by simp
qed



end
